theory Spec2Isabelle
  imports Complex_Main "HOL-Library.Word"
begin

section \<open>PastelPlayer: the visualizer pipeline and the playlist handlers\<close>

text \<open>
  A shallow embedding of \<^verbatim>\<open>src/index.tsx\<close>. JavaScript numbers of the visualizer are
  modelled as \<^typ>\<open>real\<close> (rounding of doubles is not modelled; every number of the
  per-frame computation is finite), the bytes of the \<^verbatim>\<open>Uint8Array\<close> as \<^typ>\<open>8 word\<close>,
  array indices and the playlist index as \<^typ>\<open>int\<close> or \<^typ>\<open>nat\<close>. React state becomes a
  record that each handler maps to the next state. The guards at the head of
  \<^verbatim>\<open>drawVisualizer\<close> (lines 82--90) only decide whether a frame is drawn at all; the
  functions below describe a frame that is drawn. The gain automation and the timer of
  \<^verbatim>\<open>togglePlay\<close> are events on one time line, passed to the handlers as the time of the
  call.
\<close>

subsection \<open>Display points (lines 105--150 of drawVisualizer)\<close>

record point =
  x :: real
  y :: real

text \<open>\<^verbatim>\<open>analyser.fftSize = 4096\<close> (line 61); \<^verbatim>\<open>frequencyBinCount\<close> is half of it, and
  \<^verbatim>\<open>dataArray\<close> is allocated with that length (lines 65--66).\<close>

definition fftSize :: nat where
  "fftSize = 4096"

definition frequencyBinCount :: nat where
  "frequencyBinCount = fftSize div 2"

definition minFreq :: real where
  "minFreq = 20"

definition maxFreq :: real where
  "maxFreq = 16000"

definition logMin :: real where
  "logMin = ln minFreq"

definition logMax :: real where
  "logMax = ln maxFreq"

definition steps :: nat where
  "steps = 180"

text \<open>\<^verbatim>\<open>audioContextRef.current?.sampleRate || 44100\<close>: a missing context and the falsy
  rate 0 both give 44100.\<close>

definition sampleRateOf :: "real option \<Rightarrow> real" where
  "sampleRateOf ctxRate =
     (case ctxRate of None \<Rightarrow> 44100 | Some r \<Rightarrow> if r = 0 then 44100 else r)"

definition percentOf :: "nat \<Rightarrow> real" where
  "percentOf i = real i / real steps"

definition freqOf :: "nat \<Rightarrow> real" where
  "freqOf i = exp (logMin + (logMax - logMin) * percentOf i)"

definition binIndex :: "real \<Rightarrow> real \<Rightarrow> int" where
  "binIndex sampleRate freq = \<lfloor>freq / (sampleRate / real fftSize)\<rfloor>"

text \<open>\<^verbatim>\<open>let val = 0; if (index >= 0 && index < bufferLength) val = dataArray[index]\<close>.\<close>

definition magnitude :: "8 word list \<Rightarrow> int \<Rightarrow> real" where
  "magnitude dataArray index =
     (if index \<ge> 0 \<and> index < int frequencyBinCount
      then real (unat (dataArray ! nat index)) else 0)"

definition NOISE_THRESHOLD :: real where
  "NOISE_THRESHOLD = 10"

definition noiseGate :: "real \<Rightarrow> real" where
  "noiseGate val =
     (if val < NOISE_THRESHOLD then 0
      else ((val - NOISE_THRESHOLD) / (255 - NOISE_THRESHOLD))\<^sup>2)"

text \<open>The three \<^verbatim>\<open>if\<close> statements of the EQ block, in the order of the source.\<close>

definition eqWeight :: "real \<Rightarrow> real" where
  "eqWeight freq =
     (let weight = 1.0;
          weight = (if freq < 60 then max 0.1 ((freq - 20) / 40) else weight);
          weight = (if freq \<ge> 200 \<and> freq \<le> 4000
                    then weight + max 0 (1.2 - \<bar>freq - 1000\<bar> / 2000) * 0.6
                    else weight);
          weight = (if freq > 6000 then weight * 1.3 else weight)
      in weight)"

definition displayPoint :: "8 word list \<Rightarrow> real \<Rightarrow> real \<Rightarrow> real \<Rightarrow> nat \<Rightarrow> point" where
  "displayPoint dataArray sampleRate width height i =
     (let percent = percentOf i;
          freq = freqOf i;
          index = binIndex sampleRate freq;
          val = noiseGate (magnitude dataArray index) * eqWeight freq;
          amp = val * (height * 0.25)
      in \<lparr>x = width * percent, y = amp\<rparr>)"

text \<open>The loop \<^verbatim>\<open>for (let i = 0; i <= steps; i++) points.push(...)\<close>.\<close>

function buildPoints ::
  "8 word list \<Rightarrow> real \<Rightarrow> real \<Rightarrow> real \<Rightarrow> nat \<Rightarrow> point list \<Rightarrow> point list" where
  "buildPoints dataArray sampleRate width height i points =
     (if i \<le> steps
      then buildPoints dataArray sampleRate width height (i + 1)
             (points @ [displayPoint dataArray sampleRate width height i])
      else points)"
  by pat_completeness auto
termination
  by (relation "measure (\<lambda>(d, s, w, h, i, ps). Suc steps - i)") auto

declare buildPoints.simps [simp del]

definition mapToDisplayPoints :: "8 word list \<Rightarrow> real option \<Rightarrow> real \<Rightarrow> real \<Rightarrow> point list" where
  "mapToDisplayPoints dataArray ctxRate width height =
     buildPoints dataArray (sampleRateOf ctxRate) width height 0 []"

subsection \<open>Smoothing (lines 154--160 of drawVisualizer)\<close>

text \<open>
  \<^verbatim>\<open>const smoothPoints = [...points]\<close> copies the array, not the point objects, and the
  loop below writes \<^verbatim>\<open>smoothPoints[i].y\<close> in place: the read of \<^verbatim>\<open>smoothPoints[i-1].y\<close>
  sees the value written one iteration earlier. \<^verbatim>\<open>points\<close> is not read again, so one
  list models both arrays. The mean is the exact real \<open>(a + b + c) / 3\<close>; the source
  evaluates the same expression in doubles, where each operation rounds (for instance
  \<^verbatim>\<open>(0.1 + 0.1 + 0.1) / 3\<close> is \<^verbatim>\<open>0.10000000000000002\<close>). Equations between the values as
  the code writes them are not affected; order bounds hold up to that rounding.
\<close>

definition smoothStep :: "point list \<Rightarrow> nat \<Rightarrow> point list" where
  "smoothStep smoothPoints i =
     smoothPoints[i := (smoothPoints ! i)
       \<lparr>y := (y (smoothPoints ! (i - 1)) + y (smoothPoints ! i) + y (smoothPoints ! (i + 1))) / 3\<rparr>]"

text \<open>\<^verbatim>\<open>for (let i = 1; i < smoothPoints.length - 1; i++)\<close>, entered with \<open>i = 1\<close>.\<close>

function smoothPass :: "nat \<Rightarrow> point list \<Rightarrow> point list" where
  "smoothPass i smoothPoints =
     (if int i < int (length smoothPoints) - 1
      then smoothPass (i + 1) (smoothStep smoothPoints i)
      else smoothPoints)"
  by pat_completeness auto
termination
  by (relation "measure (\<lambda>(i, ps). length ps - i)") (auto simp: smoothStep_def)

declare smoothPass.simps [simp del]

text \<open>\<^verbatim>\<open>for (let p = 0; p < passes; p++)\<close>.\<close>

function smoothPasses :: "nat \<Rightarrow> nat \<Rightarrow> point list \<Rightarrow> point list" where
  "smoothPasses p passes smoothPoints =
     (if p < passes
      then smoothPasses (p + 1) passes (smoothPass 1 smoothPoints)
      else smoothPoints)"
  by pat_completeness auto
termination
  by (relation "measure (\<lambda>(p, passes, ps). passes - p)") auto

declare smoothPasses.simps [simp del]

definition smooth :: "point list \<Rightarrow> point list" where
  "smooth points = smoothPasses 0 3 points"

text \<open>A snapshot with a single loud bin, the one that 16 kHz falls into at 44.1 kHz.\<close>

definition loudBin :: "8 word list" where
  "loudBin = (replicate 2048 0)[1486 := 255]"

text \<open>Two short point sequences on which the passes are traced by hand.\<close>

definition spike4 :: "point list" where
  "spike4 = [\<lparr>x = 0, y = 0\<rparr>, \<lparr>x = 1, y = 3\<rparr>, \<lparr>x = 2, y = 0\<rparr>, \<lparr>x = 3, y = 0\<rparr>]"

definition edge5 :: "point list" where
  "edge5 = [\<lparr>x = 0, y = 9\<rparr>, \<lparr>x = 1, y = 0\<rparr>, \<lparr>x = 2, y = 0\<rparr>, \<lparr>x = 3, y = 0\<rparr>,
            \<lparr>x = 4, y = 0\<rparr>]"

subsection \<open>Playlist state and handlers (lines 16--18, 275--318, 344--387)\<close>

text \<open>\<^verbatim>\<open>Song\<close> of \<^verbatim>\<open>types.ts\<close>; the optional \<^verbatim>\<open>file\<close> and \<^verbatim>\<open>duration\<close> are never read by
  the handlers below. The id is a random string drawn per file (line 324); it is the React
  key of the playlist row (line 567) and the handle by which \<^verbatim>\<open>deleteSong\<close> finds a song,
  so the playlist is meant to hold pairwise distinct ids. The field is called \<open>sid\<close> here,
  \<open>id\<close> being the identity function of HOL.\<close>

record song =
  sid :: string
  title :: string
  url :: string

text \<open>
  The React state (\<^verbatim>\<open>songs\<close>, \<^verbatim>\<open>currentSongIndex\<close>, \<^verbatim>\<open>isPlaying\<close>) and what the handlers
  touch outside it: the audio element's source and paused flag, the visualizer's loop
  flag and the object URLs revoked so far. Clearing the canvas and cancelling the pending
  animation frame change no value that is read back, and are left out.
\<close>

record player =
  songs :: "song list"
  currentSongIndex :: int
  isPlaying :: bool
  audioSrc :: "string option"
  audioPaused :: bool
  isVisualizerActive :: bool
  revokedUrls :: "string list"

text \<open>\<^verbatim>\<open>Array.prototype.findIndex\<close>: the first index whose element passes, else \<open>-1\<close>.\<close>

fun findIndexFrom :: "('a \<Rightarrow> bool) \<Rightarrow> nat \<Rightarrow> 'a list \<Rightarrow> int" where
  "findIndexFrom P i [] = - 1"
| "findIndexFrom P i (a # as) = (if P a then int i else findIndexFrom P (i + 1) as)"

definition findIndex :: "('a \<Rightarrow> bool) \<Rightarrow> 'a list \<Rightarrow> int" where
  "findIndex P as = findIndexFrom P 0 as"

text \<open>The remainder operator \<^verbatim>\<open>%\<close> of JavaScript takes the sign of the dividend.\<close>

definition jsRem :: "int \<Rightarrow> int \<Rightarrow> int" where
  "jsRem a b = sgn a * (\<bar>a\<bar> mod \<bar>b\<bar>)"

definition playSong :: "player \<Rightarrow> int \<Rightarrow> player" where
  "playSong s index =
     (if index \<ge> 0 \<and> index < int (length (songs s))
      then s\<lparr>currentSongIndex := index, isPlaying := True\<rparr>
      else s)"

definition nextSong :: "player \<Rightarrow> player" where
  "nextSong s =
     (if length (songs s) = 0 then s
      else let nextIndex = jsRem (currentSongIndex s + 1) (int (length (songs s)))
           in playSong s nextIndex)"

definition deleteSong :: "player \<Rightarrow> string \<Rightarrow> player" where
  "deleteSong s ident =
     (let songToDelete = find (\<lambda>g. sid g = ident) (songs s);
          s = (case songToDelete of
                 Some g \<Rightarrow> s\<lparr>revokedUrls := revokedUrls s @ [url g]\<rparr>
               | None \<Rightarrow> s);
          indexToRemove = findIndex (\<lambda>g. sid g = ident) (songs s);
          s = (if indexToRemove = currentSongIndex s
               then s\<lparr>isPlaying := False, audioPaused := True,
                      isVisualizerActive := False, currentSongIndex := - 1\<rparr>
               else if indexToRemove < currentSongIndex s
               then s\<lparr>currentSongIndex := currentSongIndex s - 1\<rparr>
               else s)
      in s\<lparr>songs := filter (\<lambda>g. sid g \<noteq> ident) (songs s)\<rparr>)"

text \<open>
  The body of the song-change effect (lines 278--313). \<open>playOk\<close> tells whether the promise
  of \<^verbatim>\<open>audio.play()\<close> resolves; a rejection is caught and resets the playing flag.
\<close>

definition changeSong :: "bool \<Rightarrow> player \<Rightarrow> player" where
  "changeSong playOk s =
     (if currentSongIndex s \<noteq> - 1 \<and> 0 \<le> currentSongIndex s
         \<and> currentSongIndex s < int (length (songs s))
      then let s = s\<lparr>audioSrc := Some (url (songs s ! nat (currentSongIndex s))),
                      audioPaused := True\<rparr>
           in if isPlaying s
              then let s = s\<lparr>isVisualizerActive := True\<rparr>
                   in if playOk then s\<lparr>audioPaused := False\<rparr> else s\<lparr>isPlaying := False\<rparr>
              else s
      else s)"

text \<open>
  An event handler followed by React's commit: the effect is registered with the
  dependency array \<^verbatim>\<open>[currentSongIndex, initAudioContext, drawVisualizer]\<close> (line 318), the
  two callbacks are created once (\<^verbatim>\<open>useCallback(..., [])\<close>), so the effect runs again
  exactly when \<^verbatim>\<open>currentSongIndex\<close> has changed.
\<close>

definition commit :: "bool \<Rightarrow> (player \<Rightarrow> player) \<Rightarrow> player \<Rightarrow> player" where
  "commit playOk handler s =
     (let s' = handler s
      in if currentSongIndex s' \<noteq> currentSongIndex s then changeSong playOk s' else s')"

text \<open>\<^verbatim>\<open>onEnded={nextSong}\<close>: playback has reached the end of the track, the element is
  paused at the end, and the handler runs.\<close>

definition trackEnded :: "bool \<Rightarrow> player \<Rightarrow> player" where
  "trackEnded playOk s = commit playOk nextSong (s\<lparr>audioPaused := True\<rparr>)"

definition songA :: song where
  "songA = \<lparr>sid = ''a1'', title = ''A'', url = ''blob:a''\<rparr>"

definition songB :: song where
  "songB = \<lparr>sid = ''b2'', title = ''B'', url = ''blob:b''\<rparr>"

definition songC :: song where
  "songC = \<lparr>sid = ''c3'', title = ''C'', url = ''blob:c''\<rparr>"

definition playingAt :: "song list \<Rightarrow> int \<Rightarrow> player" where
  "playingAt gs i =
     \<lparr>songs = gs, currentSongIndex = i, isPlaying = True,
      audioSrc = Some (url (gs ! nat i)), audioPaused = False,
      isVisualizerActive = True, revokedUrls = []\<rparr>"

subsection \<open>Seeking (lines 357--363)\<close>

text \<open>
  \<^verbatim>\<open>skipTime\<close> is the one place where a number that is not finite decides the outcome:
  \<^verbatim>\<open>duration\<close> is \<^verbatim>\<open>NaN\<close> until metadata is loaded, and the setter of
  \<^verbatim>\<open>HTMLMediaElement.currentTime\<close> throws a \<^verbatim>\<open>TypeError\<close> on a value that is not finite.
  Here a JavaScript number is a real, an infinity or \<^verbatim>\<open>NaN\<close>.
\<close>

datatype jsnum = NaN | NegInf | Fin real | PosInf

datatype error = TypeError

fun jsAdd :: "jsnum \<Rightarrow> jsnum \<Rightarrow> jsnum" where
  "jsAdd NaN b = NaN"
| "jsAdd a NaN = NaN"
| "jsAdd (Fin a) (Fin b) = Fin (a + b)"
| "jsAdd PosInf NegInf = NaN"
| "jsAdd NegInf PosInf = NaN"
| "jsAdd PosInf b = PosInf"
| "jsAdd a PosInf = PosInf"
| "jsAdd NegInf b = NegInf"
| "jsAdd a NegInf = NegInf"

text \<open>\<^verbatim>\<open>Math.max\<close> and \<^verbatim>\<open>Math.min\<close> return \<^verbatim>\<open>NaN\<close> as soon as an argument is \<^verbatim>\<open>NaN\<close>.\<close>

fun jsMax :: "jsnum \<Rightarrow> jsnum \<Rightarrow> jsnum" where
  "jsMax NaN b = NaN"
| "jsMax a NaN = NaN"
| "jsMax PosInf b = PosInf"
| "jsMax a PosInf = PosInf"
| "jsMax NegInf b = b"
| "jsMax a NegInf = a"
| "jsMax (Fin a) (Fin b) = Fin (max a b)"

fun jsMin :: "jsnum \<Rightarrow> jsnum \<Rightarrow> jsnum" where
  "jsMin NaN b = NaN"
| "jsMin a NaN = NaN"
| "jsMin NegInf b = NegInf"
| "jsMin a NegInf = NegInf"
| "jsMin PosInf b = b"
| "jsMin a PosInf = a"
| "jsMin (Fin a) (Fin b) = Fin (min a b)"

text \<open>\<^verbatim>\<open>duration || 0\<close>: the falsy numbers are 0 and \<^verbatim>\<open>NaN\<close>.\<close>

fun orZero :: "jsnum \<Rightarrow> jsnum" where
  "orZero NaN = Fin 0"
| "orZero (Fin d) = (if d = 0 then Fin 0 else Fin d)"
| "orZero d = d"

text \<open>
  The state \<^verbatim>\<open>skipTime\<close> works on: the position of the audio element (\<open>None\<close> while
  \<^verbatim>\<open>audioRef.current\<close> is null; the element's own position is always finite), and the
  React states \<^verbatim>\<open>duration\<close> and \<^verbatim>\<open>currentTime\<close>.
\<close>

record seeker =
  audioTime :: "real option"
  duration :: jsnum
  currentTime :: real

definition skipTime :: "jsnum \<Rightarrow> seeker \<Rightarrow> error + seeker" where
  "skipTime amount s =
     (case audioTime s of
        None \<Rightarrow> Inr s
      | Some t \<Rightarrow>
          let newTime = jsAdd (Fin t) amount
          in case jsMin (jsMax newTime (Fin 0)) (orZero (duration s)) of
               Fin v \<Rightarrow> Inr (s\<lparr>audioTime := Some v, currentTime := v\<rparr>)
             | _ \<Rightarrow> Inl TypeError)"

definition midTrack :: seeker where
  "midTrack = \<lparr>audioTime = Some 5, duration = Fin 200, currentTime = 5\<rparr>"

subsection \<open>The closed path (lines 163--187 of drawVisualizer)\<close>

text \<open>The calls on the 2D context after \<^verbatim>\<open>beginPath()\<close>, in the order they are made.\<close>

datatype pathCmd =
    MoveTo real real
  | QuadraticCurveTo real real real real
  | LineTo real real
  | ClosePath

definition topCurve :: "real \<Rightarrow> point list \<Rightarrow> nat \<Rightarrow> pathCmd" where
  "topCurve centerY smoothPoints i =
     (let p0 = smoothPoints ! i;
          p1 = smoothPoints ! (i + 1);
          midX = (x p0 + x p1) / 2;
          midY = centerY - ((y p0 + y p1) / 2)
      in QuadraticCurveTo (x p0) (centerY - y p0) midX midY)"

text \<open>\<^verbatim>\<open>for (let i = 0; i < smoothPoints.length - 1; i++)\<close>.\<close>

function topLoop :: "real \<Rightarrow> point list \<Rightarrow> nat \<Rightarrow> pathCmd list \<Rightarrow> pathCmd list" where
  "topLoop centerY smoothPoints i path =
     (if int i < int (length smoothPoints) - 1
      then topLoop centerY smoothPoints (i + 1) (path @ [topCurve centerY smoothPoints i])
      else path)"
  by pat_completeness auto
termination
  by (relation "measure (\<lambda>(c, ps, i, path). length ps - i)") auto

declare topLoop.simps [simp del]

definition bottomCurve :: "real \<Rightarrow> point list \<Rightarrow> nat \<Rightarrow> pathCmd" where
  "bottomCurve centerY smoothPoints i =
     (let p0 = smoothPoints ! i;
          p1 = smoothPoints ! (i - 1);
          midX = (x p0 + x p1) / 2;
          midY = centerY + ((y p0 + y p1) / 2)
      in QuadraticCurveTo (x p0) (centerY + y p0) midX midY)"

text \<open>\<^verbatim>\<open>for (let i = smoothPoints.length - 1; i > 0; i--)\<close>.\<close>

function bottomLoop :: "real \<Rightarrow> point list \<Rightarrow> nat \<Rightarrow> pathCmd list \<Rightarrow> pathCmd list" where
  "bottomLoop centerY smoothPoints i path =
     (if i > 0
      then bottomLoop centerY smoothPoints (i - 1) (path @ [bottomCurve centerY smoothPoints i])
      else path)"
  by pat_completeness auto
termination
  by (relation "measure (\<lambda>(c, ps, i, path). i)") auto

declare bottomLoop.simps [simp del]

text \<open>The commands issued for a sequence that is not empty.\<close>

definition pathCmds :: "real \<Rightarrow> real \<Rightarrow> point list \<Rightarrow> pathCmd list" where
  "pathCmds width centerY smoothPoints =
     (let path = [MoveTo 0 centerY];
          path = topLoop centerY smoothPoints 0 path;
          last = smoothPoints ! (length smoothPoints - 1);
          path = path @ [LineTo (x last) (centerY - y last)];
          path = path @ [LineTo width centerY];
          path = bottomLoop centerY smoothPoints (length smoothPoints - 1) path
      in path @ [ClosePath])"

text \<open>On an empty sequence \<^verbatim>\<open>last\<close> is \<^verbatim>\<open>undefined\<close> and \<^verbatim>\<open>last.x\<close> throws.\<close>

definition drawPath :: "real \<Rightarrow> real \<Rightarrow> point list \<Rightarrow> error + pathCmd list" where
  "drawPath width centerY smoothPoints =
     (if smoothPoints = [] then Inl TypeError else Inr (pathCmds width centerY smoothPoints))"

text \<open>One frame, from the snapshot to the path: \<^verbatim>\<open>centerY = height / 2\<close> (line 96).\<close>

definition framePath :: "8 word list \<Rightarrow> real option \<Rightarrow> real \<Rightarrow> real \<Rightarrow> error + pathCmd list" where
  "framePath dataArray ctxRate width height =
     drawPath width (height / 2) (smooth (mapToDisplayPoints dataArray ctxRate width height))"

text \<open>
  What the commands trace on the canvas: a straight segment for \<^verbatim>\<open>lineTo\<close> and
  \<^verbatim>\<open>closePath\<close> (back to the start of the subpath), a quadratic Bezier curve from the
  current point for \<^verbatim>\<open>quadraticCurveTo\<close>.
\<close>

type_synonym pt = "real \<times> real"

datatype segment = Line pt pt | Quad pt pt pt

fun trace :: "pt \<Rightarrow> pt \<Rightarrow> pathCmd list \<Rightarrow> segment list" where
  "trace start cur [] = []"
| "trace start cur (MoveTo a b # cs) = trace (a, b) (a, b) cs"
| "trace start cur (LineTo a b # cs) = Line cur (a, b) # trace start (a, b) cs"
| "trace start cur (QuadraticCurveTo c d a b # cs) = Quad cur (c, d) (a, b) # trace start (a, b) cs"
| "trace start cur (ClosePath # cs) = Line cur start # trace start start cs"

definition bezier :: "real \<Rightarrow> real \<Rightarrow> real \<Rightarrow> real \<Rightarrow> real" where
  "bezier a c b t = (1 - t)\<^sup>2 * a + 2 * (1 - t) * t * c + t\<^sup>2 * b"

fun segAt :: "segment \<Rightarrow> real \<Rightarrow> pt" where
  "segAt (Line a b) t = ((1 - t) * fst a + t * fst b, (1 - t) * snd a + t * snd b)"
| "segAt (Quad a c b) t = (bezier (fst a) (fst c) (fst b) t, bezier (snd a) (snd c) (snd b) t)"

definition onSegment :: "segment \<Rightarrow> pt \<Rightarrow> bool" where
  "onSegment s p \<longleftrightarrow> (\<exists>t. 0 \<le> t \<and> t \<le> 1 \<and> segAt s t = p)"

fun onSegments :: "segment list \<Rightarrow> pt \<Rightarrow> bool" where
  "onSegments [] p = False"
| "onSegments (s # ss) p = (onSegment s p \<or> onSegments ss p)"

definition onPath :: "pathCmd list \<Rightarrow> pt \<Rightarrow> bool" where
  "onPath cmds p = onSegments (trace (0, 0) (0, 0) cmds) p"

text \<open>Commands whose coordinates keep the pen on or above the centre line
  (canvas y grows downwards).\<close>

fun upperCmd :: "real \<Rightarrow> pathCmd \<Rightarrow> bool" where
  "upperCmd c (MoveTo a b) = (b \<le> c)"
| "upperCmd c (LineTo a b) = (b \<le> c)"
| "upperCmd c (QuadraticCurveTo e d a b) = (d \<le> c \<and> b \<le> c)"
| "upperCmd c ClosePath = True"

text \<open>Commands that draw towards the left of the line \<open>x = w\<close>: no control point beyond it,
  every end point strictly before it.\<close>

fun leftCmd :: "real \<Rightarrow> pathCmd \<Rightarrow> bool" where
  "leftCmd w (MoveTo a b) = False"
| "leftCmd w (LineTo a b) = (a < w)"
| "leftCmd w (QuadraticCurveTo e d a b) = (e \<le> w \<and> a < w)"
| "leftCmd w ClosePath = True"

text \<open>The pen (start of the subpath, current point) after a command.\<close>

definition penStep :: "pt \<times> pt \<Rightarrow> pathCmd \<Rightarrow> pt \<times> pt" where
  "penStep s k =
     (case k of
        MoveTo a b \<Rightarrow> ((a, b), (a, b))
      | LineTo a b \<Rightarrow> (fst s, (a, b))
      | QuadraticCurveTo e d a b \<Rightarrow> (fst s, (a, b))
      | ClosePath \<Rightarrow> (fst s, fst s))"

text \<open>The upper half of the path: everything up to \<^verbatim>\<open>lineTo(width, centerY)\<close>.\<close>

definition upperCmds :: "real \<Rightarrow> real \<Rightarrow> point list \<Rightarrow> pathCmd list" where
  "upperCmds w c sp =
     map (topCurve c sp) [0..<length sp - 1]
     @ [LineTo (x (sp ! (length sp - 1))) (c - y (sp ! (length sp - 1))), LineTo w c]"

definition lowerCmds :: "real \<Rightarrow> point list \<Rightarrow> pathCmd list" where
  "lowerCmds c sp = map (bottomCurve c sp) (rev [1..<Suc (length sp - 1)]) @ [ClosePath]"

text \<open>The frame drawn for the snapshot \<open>loudBin\<close> on the 400 by 240 canvas of the page.\<close>

definition loudFramePoints :: "point list" where
  "loudFramePoints = smooth (mapToDisplayPoints loudBin (Some 44100) 400 240)"

subsection \<open>Play and pause with fades (lines 211--272 of togglePlay)\<close>





















subsection \<open>Facts about the point mapping\<close>

lemma noiseGate_range: "0 \<le> v \<Longrightarrow> v \<le> 255 \<Longrightarrow> 0 \<le> noiseGate v \<and> noiseGate v \<le> 1"
proof -
  assume v: "0 \<le> v" "v \<le> 255"
  show ?thesis
  proof (cases "v < 10")
    case True
    then show ?thesis by (simp add: noiseGate_def NOISE_THRESHOLD_def)
  next
    case False
    then have a: "0 \<le> (v - 10) / 245" and b: "(v - 10) / 245 \<le> 1"
      using v by simp_all
    from a b have "((v - 10) / 245)\<^sup>2 \<le> 1"
      by (simp add: power_le_one)
    with False show ?thesis
      by (simp add: noiseGate_def NOISE_THRESHOLD_def)
  qed
qed

lemma u8_real_le: "(unsigned (w :: 8 word) :: real) \<le> 255"
proof -
  have "unat w < 2 ^ LENGTH(8)" by (rule unsigned_less)
  then have "unat w \<le> 255" by simp
  then have "real (unat w) \<le> real 255" by (simp only: of_nat_le_iff)
  then show ?thesis by simp
qed

lemma u8_real_ge0: "0 \<le> (unsigned (w :: 8 word) :: real)"
proof -
  have "0 \<le> real (unat w)" by (rule of_nat_0_le_iff)
  then show ?thesis by simp
qed

lemma u8_real_less_iff: "(unsigned (w :: 8 word) :: real) < 10 \<longleftrightarrow> unat w < 10"
proof -
  have "real (unat w) < real 10 \<longleftrightarrow> unat w < 10" by (simp only: of_nat_less_iff)
  then show ?thesis by simp
qed

lemma u8_real_eq_iff: "(unsigned (w :: 8 word) :: real) = 10 \<longleftrightarrow> unat w = 10"
proof -
  have "real (unat w) = real 10 \<longleftrightarrow> unat w = 10" by (simp only: of_nat_eq_iff)
  then show ?thesis by simp
qed

lemma magnitude_range: "0 \<le> magnitude d k \<and> magnitude d k \<le> 255"
  by (simp add: magnitude_def u8_real_le u8_real_ge0)

lemma eqWeight_range: "0 < eqWeight f \<and> eqWeight f \<le> 1.72"
proof -
  consider "f < 60" | "60 \<le> f" "f < 200" | "200 \<le> f" "f \<le> 4000"
    | "4000 < f" "f \<le> 6000" | "6000 < f"
    by linarith
  then show ?thesis
  proof cases
    case 1
    then show ?thesis by (simp add: eqWeight_def max_def)
  next
    case 2
    then show ?thesis by (simp add: eqWeight_def)
  next
    case 3
    define b where "b = max 0 (1.2 - \<bar>f - 1000\<bar> / 2000)"
    have b: "0 \<le> b" "b \<le> 1.2"
      by (simp_all add: b_def max_def)
    from 3 have "eqWeight f = 1 + b * 0.6"
      by (simp add: eqWeight_def b_def)
    with b show ?thesis by simp
  next
    case 4
    then show ?thesis by (simp add: eqWeight_def)
  next
    case 5
    then show ?thesis by (simp add: eqWeight_def)
  qed
qed

lemma buildPoints_eq:
  "i \<le> Suc steps \<Longrightarrow> buildPoints d s w h i ps = ps @ map (displayPoint d s w h) [i..<Suc steps]"
proof (induction d s w h i ps rule: buildPoints.induct)
  case (1 d s w h i ps)
  show ?case
  proof (cases "i \<le> steps")
    case True
    then have "[i..<Suc steps] = i # [Suc i..<Suc steps]"
      by (simp add: upt_conv_Cons)
    with True 1 show ?thesis
      by (subst buildPoints.simps) simp
  next
    case False
    with 1 have "i = Suc steps" by simp
    then show ?thesis
      by (subst buildPoints.simps) simp
  qed
qed

lemma Suc_steps: "Suc steps = 181"
  by (simp add: steps_def)

lemma mapToDisplayPoints_eq:
  "mapToDisplayPoints d r w h = map (displayPoint d (sampleRateOf r) w h) [0..<Suc steps]"
  unfolding mapToDisplayPoints_def by (subst buildPoints_eq) simp_all

lemma length_mapToDisplayPoints: "length (mapToDisplayPoints d r w h) = 181"
  unfolding mapToDisplayPoints_eq length_map length_upt Suc_steps by simp

lemma nth_mapToDisplayPoints:
  assumes "i < 181"
  shows "mapToDisplayPoints d r w h ! i = displayPoint d (sampleRateOf r) w h i"
proof -
  from assms have i: "i < Suc steps" by (simp only: Suc_steps)
  then have "[0..<Suc steps] ! i = i" by (simp only: nth_upt add_0)
  moreover from i have "i < length [0..<Suc steps]" by (simp only: length_upt minus_nat.diff_0)
  ultimately show ?thesis
    unfolding mapToDisplayPoints_eq by (simp only: nth_map)
qed

lemma x_displayPoint: "x (displayPoint d s w h i) = w * (real i / 180)"
  by (simp add: displayPoint_def percentOf_def steps_def Let_def)

lemma y_displayPoint:
  "y (displayPoint d s w h i) =
     noiseGate (magnitude d (binIndex s (freqOf i))) * eqWeight (freqOf i) * (h * 0.25)"
  by (simp add: displayPoint_def Let_def)

lemma y_displayPoint_range:
  assumes "0 \<le> h"
  shows "0 \<le> y (displayPoint d s w h i) \<and> y (displayPoint d s w h i) \<le> h * 0.25 * 1.72"
proof -
  define g where "g = noiseGate (magnitude d (binIndex s (freqOf i)))"
  define e where "e = eqWeight (freqOf i)"
  have g: "0 \<le> g" "g \<le> 1"
    using noiseGate_range [OF magnitude_range [THEN conjunct1] magnitude_range [THEN conjunct2]]
    by (simp_all add: g_def)
  have e: "0 < e" "e \<le> 1.72"
    using eqWeight_range by (simp_all add: e_def)
  have ge0: "0 \<le> g * e" using g e by simp
  have "g * e \<le> 1 * 1.72"
    using g e by (intro mult_mono) simp_all
  then have ge1: "g * e \<le> 1.72" by simp
  have h4: "0 \<le> h * 0.25" using assms by simp
  have "0 \<le> (g * e) * (h * 0.25)"
    using ge0 h4 by (rule mult_nonneg_nonneg)
  moreover have "(g * e) * (h * 0.25) \<le> 1.72 * (h * 0.25)"
    using ge1 h4 by (rule mult_right_mono)
  ultimately show ?thesis
    by (simp add: y_displayPoint g_def e_def mult.commute)
qed

lemma freqOf_last: "freqOf 180 = 16000"
  by (simp add: freqOf_def percentOf_def steps_def logMin_def logMax_def minFreq_def maxFreq_def)

lemma binIndex_16000: "binIndex 44100 16000 = 1486"
  unfolding binIndex_def fftSize_def by (simp add: floor_eq_iff)

lemma magnitude_loudBin: "magnitude loudBin 1486 = 255"
  by (simp add: magnitude_def loudBin_def frequencyBinCount_def fftSize_def)

lemma eqWeight_16000: "eqWeight 16000 = 1.3"
  by (simp add: eqWeight_def)

lemma noiseGate_255: "noiseGate 255 = 1"
  by (simp add: noiseGate_def NOISE_THRESHOLD_def)

lemma y_last_loudBin: "y (mapToDisplayPoints loudBin (Some 44100) w h ! 180) = 1.3 * (h * 0.25)"
  by (simp add: nth_mapToDisplayPoints y_displayPoint sampleRateOf_def freqOf_last
      binIndex_16000 magnitude_loudBin eqWeight_16000 noiseGate_255)

lemma x_strict_mono:
  assumes "0 < w" "i < j"
  shows "x (displayPoint d s w h i) < x (displayPoint d s w h j)"
proof -
  from assms(2) have "real i / 180 < real j / 180" by simp
  then have "w * (real i / 180) < w * (real j / 180)"
    using assms(1) by (rule mult_strict_left_mono)
  then show ?thesis
    by (simp only: x_displayPoint)
qed

lemma length_loudBin: "length loudBin = frequencyBinCount"
  by (simp add: loudBin_def frequencyBinCount_def fftSize_def)

text \<open>C1 (as amended): the point loop yields 181 points with strictly increasing x for a
  positive canvas width, and every y lies between 0 and 1.72 times a quarter of the
  canvas height (the equalization weight reaches beyond 1).\<close>

theorem display_points_shape:
  assumes "length dataArray = frequencyBinCount" and "0 < width" and "0 \<le> height"
  shows "length (mapToDisplayPoints dataArray ctxRate width height) = 181
       \<and> (\<forall>i j. i < j \<and> j < 181 \<longrightarrow>
            x (mapToDisplayPoints dataArray ctxRate width height ! i)
              < x (mapToDisplayPoints dataArray ctxRate width height ! j))
       \<and> (\<forall>i < 181.
            0 \<le> y (mapToDisplayPoints dataArray ctxRate width height ! i)
          \<and> y (mapToDisplayPoints dataArray ctxRate width height ! i) \<le> height * 0.25 * 1.72)"
proof (intro conjI allI impI)
  show "length (mapToDisplayPoints dataArray ctxRate width height) = 181"
    by (rule length_mapToDisplayPoints)
next
  fix i j :: nat
  assume ij: "i < j \<and> j < 181"
  then have "i < 181" by simp
  with ij assms(2) show "x (mapToDisplayPoints dataArray ctxRate width height ! i)
      < x (mapToDisplayPoints dataArray ctxRate width height ! j)"
    by (simp only: nth_mapToDisplayPoints x_strict_mono)
next
  fix i :: nat
  assume "i < 181"
  with assms(3) show "0 \<le> y (mapToDisplayPoints dataArray ctxRate width height ! i)"
    by (simp only: nth_mapToDisplayPoints y_displayPoint_range)
next
  fix i :: nat
  assume "i < 181"
  with assms(3) show "y (mapToDisplayPoints dataArray ctxRate width height ! i) \<le> height * 0.25 * 1.72"
    by (simp only: nth_mapToDisplayPoints y_displayPoint_range)
qed

theorem display_points_shape_witness:
  "length loudBin = frequencyBinCount \<and> (0::real) < 400 \<and> (0::real) \<le> 240
   \<and> length (mapToDisplayPoints loudBin (Some 44100) 400 240) = 181
   \<and> x (mapToDisplayPoints loudBin (Some 44100) 400 240 ! 179)
       < x (mapToDisplayPoints loudBin (Some 44100) 400 240 ! 180)
   \<and> y (mapToDisplayPoints loudBin (Some 44100) 400 240 ! 180) \<le> 240 * 0.25 * 1.72"
proof -
  have h: "length loudBin = frequencyBinCount" "(0::real) < 400" "(0::real) \<le> 240"
    by (simp_all add: length_loudBin)
  note t = display_points_shape [OF h, of "Some 44100"]
  from t have "x (mapToDisplayPoints loudBin (Some 44100) 400 240 ! 179)
       < x (mapToDisplayPoints loudBin (Some 44100) 400 240 ! 180)"
    by simp
  moreover from t have "y (mapToDisplayPoints loudBin (Some 44100) 400 240 ! 180) \<le> 240 * 0.25 * 1.72"
    by simp
  ultimately show ?thesis using h t by simp
qed

theorem display_points_quarter_height_counterexample:
  "\<not> y (mapToDisplayPoints loudBin (Some 44100) 400 240 ! 180) \<le> 240 * 0.25"
  by (simp add: y_last_loudBin)

subsection \<open>Facts about the smoothing\<close>

lemma length_smoothStep: "length (smoothStep ps i) = length ps"
  by (simp add: smoothStep_def)

lemma length_smoothPass: "length (smoothPass i ps) = length ps"
proof (induction i ps rule: smoothPass.induct)
  case (1 i ps)
  show ?case
  proof (cases "int i < int (length ps) - 1")
    case True
    with 1 show ?thesis
      by (subst smoothPass.simps) (simp add: length_smoothStep)
  next
    case False
    then show ?thesis
      by (subst smoothPass.simps) simp
  qed
qed

lemma nth_smoothStep_other: "j \<noteq> i \<Longrightarrow> smoothStep ps i ! j = ps ! j"
  by (simp add: smoothStep_def)

lemma x_smoothStep: "j < length ps \<Longrightarrow> x (smoothStep ps i ! j) = x (ps ! j)"
  by (cases "j = i") (simp_all add: smoothStep_def)

lemma y_smoothStep_at:
  "i < length ps \<Longrightarrow>
     y (smoothStep ps i ! i) = (y (ps ! (i - 1)) + y (ps ! i) + y (ps ! (i + 1))) / 3"
  by (simp add: smoothStep_def)

text \<open>Entries below the loop index are no longer written.\<close>

lemma nth_smoothPass_below: "j < i \<Longrightarrow> smoothPass i ps ! j = ps ! j"
proof (induction i ps rule: smoothPass.induct)
  case (1 i ps)
  show ?case
  proof (cases "int i < int (length ps) - 1")
    case True
    from 1(2) have "j < i + 1" and "j \<noteq> i" by simp_all
    with True 1(1) have "smoothPass (i + 1) (smoothStep ps i) ! j = ps ! j"
      by (simp add: nth_smoothStep_other)
    with True show ?thesis
      by (subst smoothPass.simps) simp
  next
    case False
    then show ?thesis
      by (subst smoothPass.simps) simp
  qed
qed

text \<open>The last entry (and anything from it on) is never written.\<close>

lemma nth_smoothPass_last: "length ps \<le> j + 1 \<Longrightarrow> smoothPass i ps ! j = ps ! j"
proof (induction i ps rule: smoothPass.induct)
  case (1 i ps)
  show ?case
  proof (cases "int i < int (length ps) - 1")
    case True
    with 1(2) have "j \<noteq> i" by auto
    with True 1 have "smoothPass (i + 1) (smoothStep ps i) ! j = ps ! j"
      by (simp add: nth_smoothStep_other length_smoothStep)
    with True show ?thesis
      by (subst smoothPass.simps) simp
  next
    case False
    then show ?thesis
      by (subst smoothPass.simps) simp
  qed
qed

lemma x_smoothPass: "j < length ps \<Longrightarrow> x (smoothPass i ps ! j) = x (ps ! j)"
proof (induction i ps rule: smoothPass.induct)
  case (1 i ps)
  show ?case
  proof (cases "int i < int (length ps) - 1")
    case True
    with 1 have "x (smoothPass (i + 1) (smoothStep ps i) ! j) = x (ps ! j)"
      by (simp add: length_smoothStep x_smoothStep)
    with True show ?thesis
      by (subst smoothPass.simps) simp
  next
    case False
    then show ?thesis
      by (subst smoothPass.simps) simp
  qed
qed

text \<open>The recurrence of one pass: the left neighbour is read after it was written.\<close>

lemma y_smoothPass_interior:
  "1 \<le> i \<Longrightarrow> i \<le> j \<Longrightarrow> j + 1 < length ps \<Longrightarrow>
     y (smoothPass i ps ! j)
       = (y (smoothPass i ps ! (j - 1)) + y (ps ! j) + y (ps ! (j + 1))) / 3"
proof (induction i ps rule: smoothPass.induct)
  case (1 i ps)
  from 1(3,4) have run: "int i < int (length ps) - 1" by simp
  then have unfold: "smoothPass i ps = smoothPass (i + 1) (smoothStep ps i)"
    by (subst smoothPass.simps) simp
  show ?case
  proof (cases "j = i")
    case True
    have "smoothPass (i + 1) (smoothStep ps i) ! i = smoothStep ps i ! i"
      by (rule nth_smoothPass_below) simp
    moreover have "smoothPass (i + 1) (smoothStep ps i) ! (i - 1) = smoothStep ps i ! (i - 1)"
      by (rule nth_smoothPass_below) simp
    moreover from 1(2) have "smoothStep ps i ! (i - 1) = ps ! (i - 1)"
      by (simp add: nth_smoothStep_other)
    moreover from 1(3,4) have "i < length ps" by simp
    ultimately show ?thesis
      using True by (simp add: unfold y_smoothStep_at)
  next
    case False
    with 1(3) have "i + 1 \<le> j" by simp
    moreover have "1 \<le> i + 1" by simp
    moreover from 1(4) have "j + 1 < length (smoothStep ps i)"
      by (simp add: length_smoothStep)
    ultimately have "y (smoothPass (i + 1) (smoothStep ps i) ! j)
        = (y (smoothPass (i + 1) (smoothStep ps i) ! (j - 1))
            + y (smoothStep ps i ! j) + y (smoothStep ps i ! (j + 1))) / 3"
      using 1(1) [OF run] by blast
    moreover from False have "smoothStep ps i ! j = ps ! j"
      by (simp add: nth_smoothStep_other)
    moreover from \<open>i + 1 \<le> j\<close> have "smoothStep ps i ! (j + 1) = ps ! (j + 1)"
      by (simp add: nth_smoothStep_other)
    ultimately show ?thesis
      by (simp add: unfold)
  qed
qed

lemma smoothPasses_Suc:
  "p \<le> k \<Longrightarrow> smoothPasses p (Suc k) ps = smoothPass 1 (smoothPasses p k ps)"
proof (induction p k ps rule: smoothPasses.induct)
  case (1 p k ps)
  show ?case
  proof (cases "p < k")
    case True
    then have "smoothPasses p (Suc k) ps = smoothPasses (p + 1) (Suc k) (smoothPass 1 ps)"
      by (subst smoothPasses.simps) simp
    also from True 1 have "\<dots> = smoothPass 1 (smoothPasses (p + 1) k (smoothPass 1 ps))"
      by simp
    also from True have "smoothPasses (p + 1) k (smoothPass 1 ps) = smoothPasses p k ps"
      by (subst (2) smoothPasses.simps) simp
    finally show ?thesis .
  next
    case False
    with 1(2) have "p = k" by simp
    then show ?thesis
      by (simp add: smoothPasses.simps [of k "Suc k"] smoothPasses.simps [of "Suc k" "Suc k"]
          smoothPasses.simps [of k k])
  qed
qed

lemma smoothPasses_0: "smoothPasses 0 0 ps = ps"
  by (subst smoothPasses.simps) simp

lemma length_smoothPasses: "length (smoothPasses 0 k ps) = length ps"
  by (induction k) (simp_all add: smoothPasses_0 smoothPasses_Suc length_smoothPass)


lemma x_smoothPasses: "j < length ps \<Longrightarrow> x (smoothPasses 0 k ps ! j) = x (ps ! j)"
  by (induction k) (simp_all add: smoothPasses_0 smoothPasses_Suc x_smoothPass length_smoothPasses)

lemma smoothPass_spike4:
  "smoothPass 1 spike4 = [\<lparr>x = 0, y = 0\<rparr>, \<lparr>x = 1, y = 1\<rparr>, \<lparr>x = 2, y = 1 / 3\<rparr>, \<lparr>x = 3, y = 0\<rparr>]"
  by (simp add: spike4_def smoothPass.simps smoothStep_def)


lemma smooth_edge5:
  "smooth edge5 = [\<lparr>x = 0, y = 9\<rparr>, \<lparr>x = 1, y = 137 / 27\<rparr>, \<lparr>x = 2, y = 208 / 81\<rparr>, \<lparr>x = 3, y = 268 / 243\<rparr>,
            \<lparr>x = 4, y = 0\<rparr>]"
  by (simp add: edge5_def smooth_def smoothPasses.simps smoothPass.simps smoothStep_def)

text \<open>C2 (as amended): \<open>smoothPasses 0 k ps\<close> is the array after \<open>k\<close> passes, and
  \<open>smooth\<close> is the array after three. Pass \<open>k + 1\<close> keeps the length and every x, leaves the
  first and the last point as they were, and gives every interior point the mean of its left
  neighbour as already rewritten in this pass and of its own and its right neighbour's y as
  they were at the start of the pass.\<close>

theorem smoothing_pass_in_place:
  "length (smoothPasses 0 (Suc k) ps) = length (smoothPasses 0 k ps)
   \<and> (\<forall>j < length ps. x (smoothPasses 0 (Suc k) ps ! j) = x (smoothPasses 0 k ps ! j))
   \<and> (0 < length ps \<longrightarrow>
        smoothPasses 0 (Suc k) ps ! 0 = smoothPasses 0 k ps ! 0
      \<and> smoothPasses 0 (Suc k) ps ! (length ps - 1) = smoothPasses 0 k ps ! (length ps - 1))
   \<and> (\<forall>j. 1 \<le> j \<and> j + 1 < length ps \<longrightarrow>
        y (smoothPasses 0 (Suc k) ps ! j)
          = (y (smoothPasses 0 (Suc k) ps ! (j - 1))
              + y (smoothPasses 0 k ps ! j) + y (smoothPasses 0 k ps ! (j + 1))) / 3)"
proof -
  define before where "before = smoothPasses 0 k ps"
  have after: "smoothPasses 0 (Suc k) ps = smoothPass 1 before"
    by (simp add: before_def smoothPasses_Suc)
  have len: "length before = length ps"
    by (simp add: before_def length_smoothPasses)
  have "length (smoothPass 1 before) = length before"
    by (rule length_smoothPass)
  moreover have "\<forall>j < length ps. x (smoothPass 1 before ! j) = x (before ! j)"
    by (simp add: x_smoothPass len)
  moreover have "smoothPass 1 before ! 0 = before ! 0"
    by (rule nth_smoothPass_below) simp
  moreover have "smoothPass 1 before ! (length ps - 1) = before ! (length ps - 1)"
    by (rule nth_smoothPass_last) (simp add: len)
  moreover have "\<forall>j. 1 \<le> j \<and> j + 1 < length ps \<longrightarrow>
        y (smoothPass 1 before ! j)
          = (y (smoothPass 1 before ! (j - 1)) + y (before ! j) + y (before ! (j + 1))) / 3"
    using y_smoothPass_interior [of 1 _ before] by (simp add: len)
  ultimately show ?thesis
    unfolding after before_def [symmetric] by simp
qed


theorem smoothing_pass_in_place_witness:
  "0 < length spike4 \<and> (1::nat) \<le> 2 \<and> 2 + 1 < length spike4
   \<and> smoothPasses 0 (Suc 0) spike4 ! 0 = smoothPasses 0 0 spike4 ! 0
   \<and> y (smoothPasses 0 (Suc 0) spike4 ! 2)
       = (y (smoothPasses 0 (Suc 0) spike4 ! (2 - 1))
           + y (smoothPasses 0 0 spike4 ! 2) + y (smoothPasses 0 0 spike4 ! (2 + 1))) / 3"
proof -
  have h: "0 < length spike4" "(1::nat) \<le> 2 \<and> 2 + 1 < length spike4"
    by (simp_all add: spike4_def)
  note t = smoothing_pass_in_place [of 0 spike4]
  from t h(1) have "smoothPasses 0 (Suc 0) spike4 ! 0 = smoothPasses 0 0 spike4 ! 0"
    by blast
  moreover from t h(2) have "y (smoothPasses 0 (Suc 0) spike4 ! 2)
       = (y (smoothPasses 0 (Suc 0) spike4 ! (2 - 1))
           + y (smoothPasses 0 0 spike4 ! 2) + y (smoothPasses 0 0 spike4 ! (2 + 1))) / 3"
    by blast
  ultimately show ?thesis using h by blast
qed

theorem smoothing_start_of_pass_counterexample:
  "y (smoothPass 1 spike4 ! 2) \<noteq> (y (spike4 ! 1) + y (spike4 ! 2) + y (spike4 ! 3)) / 3"
  unfolding smoothPass_spike4 by (simp add: spike4_def)

text \<open>One pass keeps a point inside any interval that holds the old values up to its
  right neighbour.\<close>

lemma smoothPass_bounds:
  assumes "\<forall>j. j \<le> i + 1 \<and> j < length ps \<longrightarrow> lo \<le> y (ps ! j) \<and> y (ps ! j) \<le> hi"
    and "i < length ps"
  shows "lo \<le> y (smoothPass 1 ps ! i) \<and> y (smoothPass 1 ps ! i) \<le> hi"
  using assms
proof (induction i)
  case 0
  have "smoothPass 1 ps ! 0 = ps ! 0"
    by (rule nth_smoothPass_below) simp
  with 0 show ?case by simp
next
  case (Suc i)
  show ?case
  proof (cases "Suc i + 1 < length ps")
    case True
    have prev: "lo \<le> y (smoothPass 1 ps ! i) \<and> y (smoothPass 1 ps ! i) \<le> hi"
      using Suc by simp
    have cur: "lo \<le> y (ps ! Suc i) \<and> y (ps ! Suc i) \<le> hi"
      using Suc.prems by simp
    have nxt: "lo \<le> y (ps ! (Suc i + 1)) \<and> y (ps ! (Suc i + 1)) \<le> hi"
      using Suc.prems(1) True by simp
    have "y (smoothPass 1 ps ! Suc i)
        = (y (smoothPass 1 ps ! (Suc i - 1)) + y (ps ! Suc i) + y (ps ! (Suc i + 1))) / 3"
      using True by (intro y_smoothPass_interior) simp_all
    with prev cur nxt show ?thesis by simp
  next
    case False
    then have "smoothPass 1 ps ! Suc i = ps ! Suc i"
      by (intro nth_smoothPass_last) simp
    with Suc.prems show ?thesis by simp
  qed
qed

lemma smoothPasses_bounds:
  assumes "\<forall>j. j \<le> i + k \<and> j < length ps \<longrightarrow> lo \<le> y (ps ! j) \<and> y (ps ! j) \<le> hi"
    and "i < length ps"
  shows "lo \<le> y (smoothPasses 0 k ps ! i) \<and> y (smoothPasses 0 k ps ! i) \<le> hi"
  using assms
proof (induction k arbitrary: i)
  case 0
  then show ?case by (simp add: smoothPasses_0)
next
  case (Suc k)
  have "\<forall>j. j \<le> i + 1 \<and> j < length (smoothPasses 0 k ps) \<longrightarrow>
      lo \<le> y (smoothPasses 0 k ps ! j) \<and> y (smoothPasses 0 k ps ! j) \<le> hi"
  proof (intro allI impI)
    fix j
    assume j: "j \<le> i + 1 \<and> j < length (smoothPasses 0 k ps)"
    then have "j < length ps" by (simp add: length_smoothPasses)
    moreover have "\<forall>j'. j' \<le> j + k \<and> j' < length ps \<longrightarrow> lo \<le> y (ps ! j') \<and> y (ps ! j') \<le> hi"
      using Suc.prems(1) j by simp
    ultimately show "lo \<le> y (smoothPasses 0 k ps ! j) \<and> y (smoothPasses 0 k ps ! j) \<le> hi"
      using Suc.IH by blast
  qed
  moreover from Suc.prems(2) have "i < length (smoothPasses 0 k ps)"
    by (simp add: length_smoothPasses)
  ultimately show ?case
    unfolding smoothPasses_Suc [OF le0] by (rule smoothPass_bounds)
qed

text \<open>C3 (as amended): in exact arithmetic, after the three passes a point stays between the
  least and the greatest original y among the points from the left end up to three places
  to its right. The statement is about the means as real numbers: line 158 rounds each of
  its three operations, and in doubles the mean of three equal values can come out one unit
  in the last place away from them, so the computed value can leave the interval by
  rounding errors of that size.\<close>

theorem smoothing_bounded_by_window:
  assumes "i < length ps"
  shows "Min (y ` set (take (i + 4) ps)) \<le> y (smooth ps ! i)
       \<and> y (smooth ps ! i) \<le> Max (y ` set (take (i + 4) ps))"
proof -
  let ?W = "y ` set (take (i + 4) ps)"
  have fin: "finite ?W" by simp
  have "\<forall>j. j \<le> i + 3 \<and> j < length ps \<longrightarrow> Min ?W \<le> y (ps ! j) \<and> y (ps ! j) \<le> Max ?W"
  proof (intro allI impI)
    fix j
    assume j: "j \<le> i + 3 \<and> j < length ps"
    then have "j < length (take (i + 4) ps)" by simp
    then have "take (i + 4) ps ! j \<in> set (take (i + 4) ps)" by (rule nth_mem)
    moreover from j have "take (i + 4) ps ! j = ps ! j" by simp
    ultimately have "y (ps ! j) \<in> ?W" by (metis imageI)
    with fin show "Min ?W \<le> y (ps ! j) \<and> y (ps ! j) \<le> Max ?W" by simp
  qed
  with assms show ?thesis
    unfolding smooth_def by (rule smoothPasses_bounds [rotated])
qed

theorem smoothing_bounded_by_window_witness:
  "2 < length edge5
   \<and> Min (y ` set (take (2 + 4) edge5)) \<le> y (smooth edge5 ! 2)
   \<and> y (smooth edge5 ! 2) \<le> Max (y ` set (take (2 + 4) edge5))"
proof -
  have h: "2 < length edge5" by (simp add: edge5_def)
  from smoothing_bounded_by_window [OF h] h show ?thesis by blast
qed

theorem smoothing_three_neighbour_counterexample:
  "\<not> y (smooth edge5 ! 2) \<le> Max {y (edge5 ! 1), y (edge5 ! 2), y (edge5 ! 3)}"
  unfolding smooth_edge5 by (simp add: edge5_def)

subsection \<open>The noise gate\<close>

text \<open>C7: the noise gate sends every magnitude up to 10 to 0 and every larger one to
  the square of its rescaled value.\<close>

theorem noise_gate_values:
  "noiseGate (real (unat (m :: 8 word))) =
     (if unat m \<le> 10 then 0 else ((real (unat m) - 10) / (255 - 10))\<^sup>2)"
proof -
  have "unat m \<le> 10 \<longleftrightarrow> unat m < 10 \<or> unat m = 10"
    by auto
  then show ?thesis
    by (auto simp add: noiseGate_def NOISE_THRESHOLD_def u8_real_less_iff u8_real_eq_iff)
qed

subsection \<open>Facts about the playlist handlers\<close>

lemma findIndexFrom_distinct:
  "distinct (map f as) \<Longrightarrow> i < length as \<Longrightarrow>
     findIndexFrom (\<lambda>g. f g = f (as ! i)) k as = int (k + i)"
proof (induction as arbitrary: i k)
  case Nil
  then show ?case by simp
next
  case (Cons a as)
  show ?case
  proof (cases i)
    case 0
    then show ?thesis by simp
  next
    case (Suc j)
    with Cons.prems have j: "j < length as" and d: "distinct (map f as)"
      and "f a \<notin> f ` set as"
      by simp_all
    then have "f a \<noteq> f (as ! j)" by (metis imageI nth_mem)
    with Cons.IH [OF d j, of "k + 1"] Suc show ?thesis by simp
  qed
qed

lemma findIndex_distinct:
  "distinct (map f as) \<Longrightarrow> i < length as \<Longrightarrow> findIndex (\<lambda>g. f g = f (as ! i)) as = int i"
  by (simp add: findIndex_def findIndexFrom_distinct)

lemma filter_distinct:
  "distinct (map f as) \<Longrightarrow> i < length as \<Longrightarrow>
     filter (\<lambda>g. f g \<noteq> f (as ! i)) as = take i as @ drop (Suc i) as"
proof (induction as arbitrary: i)
  case Nil
  then show ?case by simp
next
  case (Cons a as)
  from Cons.prems have d: "distinct (map f as)" and na: "f a \<notin> f ` set as"
    by simp_all
  show ?case
  proof (cases i)
    case 0
    from na have "\<forall>g \<in> set as. f g \<noteq> f a"
      by (metis imageI)
    then have "filter (\<lambda>g. f g \<noteq> f a) as = as"
      by (simp add: filter_id_conv)
    with 0 show ?thesis by simp
  next
    case (Suc j)
    with Cons.prems have j: "j < length as" by simp
    with na have "f a \<noteq> f (as ! j)" by (metis imageI nth_mem)
    with Cons.IH [OF d j] Suc show ?thesis by simp
  qed
qed

lemma find_distinct:
  "distinct (map f as) \<Longrightarrow> i < length as \<Longrightarrow> find (\<lambda>g. f g = f (as ! i)) as = Some (as ! i)"
proof (induction as arbitrary: i)
  case Nil
  then show ?case by simp
next
  case (Cons a as)
  show ?case
  proof (cases i)
    case 0
    then show ?thesis by simp
  next
    case (Suc j)
    with Cons.prems have j: "j < length as" and d: "distinct (map f as)"
      and "f a \<notin> f ` set as"
      by simp_all
    then have "f a \<noteq> f (as ! j)" by (metis imageI nth_mem)
    with Cons.IH [OF d j] Suc show ?thesis by simp
  qed
qed

lemma nth_remove_after:
  assumes "i < j" and "j < length as"
  shows "(take i as @ drop (Suc i) as) ! (j - 1) = as ! j"
proof -
  from assms have len: "length (take i as) = i" by simp
  from assms have "\<not> j - 1 < length (take i as)" by simp
  then have "(take i as @ drop (Suc i) as) ! (j - 1)
      = drop (Suc i) as ! (j - 1 - length (take i as))"
    by (simp only: nth_append if_False)
  then have "(take i as @ drop (Suc i) as) ! (j - 1) = drop (Suc i) as ! (j - 1 - i)"
    by (simp only: len)
  also from assms have "\<dots> = as ! (Suc i + (j - 1 - i))"
    by (intro nth_drop) simp
  also from assms have "Suc i + (j - 1 - i) = j" by simp
  finally show ?thesis .
qed

lemma nth_remove_before: "j < i \<Longrightarrow> i < length as \<Longrightarrow> (take i as @ drop (Suc i) as) ! j = as ! j"
  by (simp add: nth_append)


lemma deleteSong_at:
  assumes "distinct (map sid (songs s))" and "i < length (songs s)"
  shows "deleteSong s (sid (songs s ! i)) =
     (let s1 = s\<lparr>revokedUrls := revokedUrls s @ [url (songs s ! i)]\<rparr>;
          s2 = (if int i = currentSongIndex s
                then s1\<lparr>isPlaying := False, audioPaused := True,
                        isVisualizerActive := False, currentSongIndex := - 1\<rparr>
                else if int i < currentSongIndex s
                then s1\<lparr>currentSongIndex := currentSongIndex s - 1\<rparr>
                else s1)
      in s2\<lparr>songs := take i (songs s) @ drop (Suc i) (songs s)\<rparr>)"
  using assms
  by (simp add: deleteSong_def Let_def find_distinct findIndex_distinct filter_distinct)

text \<open>C5: with pairwise distinct song ids, deleting the active track clears the playing flag
  and sets the index to \<open>-1\<close>; deleting a track before the active one lowers the index by
  one, and the lowered index points at the track that was active.\<close>

theorem delete_active_or_earlier:
  assumes "distinct (map sid (songs s))" and "i < length (songs s)"
    and "0 \<le> currentSongIndex s" and "currentSongIndex s < int (length (songs s))"
  shows "(int i = currentSongIndex s \<longrightarrow>
            isPlaying (deleteSong s (sid (songs s ! i))) = False
          \<and> currentSongIndex (deleteSong s (sid (songs s ! i))) = - 1)
       \<and> (int i < currentSongIndex s \<longrightarrow>
            currentSongIndex (deleteSong s (sid (songs s ! i))) = currentSongIndex s - 1
          \<and> songs (deleteSong s (sid (songs s ! i))) ! nat (currentSongIndex s - 1)
              = songs s ! nat (currentSongIndex s)
          \<and> isPlaying (deleteSong s (sid (songs s ! i))) = isPlaying s)"
proof (intro conjI impI)
  assume "int i = currentSongIndex s"
  then show "isPlaying (deleteSong s (sid (songs s ! i))) = False"
    and "currentSongIndex (deleteSong s (sid (songs s ! i))) = - 1"
    by (simp_all add: deleteSong_at [OF assms(1,2)])
next
  assume less: "int i < currentSongIndex s"
  then show "currentSongIndex (deleteSong s (sid (songs s ! i))) = currentSongIndex s - 1"
    and "isPlaying (deleteSong s (sid (songs s ! i))) = isPlaying s"
    by (simp_all add: deleteSong_at [OF assms(1,2)])
  from less assms(4) have "i < nat (currentSongIndex s)"
    and "nat (currentSongIndex s) < length (songs s)"
    by simp_all
  then have "(take i (songs s) @ drop (Suc i) (songs s)) ! (nat (currentSongIndex s) - 1)
      = songs s ! nat (currentSongIndex s)"
    by (rule nth_remove_after)
  moreover from assms(3) have "nat (currentSongIndex s - 1) = nat (currentSongIndex s) - 1"
    by simp
  ultimately show "songs (deleteSong s (sid (songs s ! i))) ! nat (currentSongIndex s - 1)
      = songs s ! nat (currentSongIndex s)"
    using less by (simp add: deleteSong_at [OF assms(1,2)])
qed

lemma distinct_ABC: "distinct (map sid [songA, songB, songC])"
  by (simp add: songA_def songB_def songC_def)

theorem delete_active_or_earlier_witness:
  "distinct (map sid (songs (playingAt [songA, songB, songC] 2)))
   \<and> 0 < length (songs (playingAt [songA, songB, songC] 2))
   \<and> 2 < length (songs (playingAt [songA, songB, songC] 2))
   \<and> 0 \<le> currentSongIndex (playingAt [songA, songB, songC] 2)
   \<and> currentSongIndex (playingAt [songA, songB, songC] 2)
       < int (length (songs (playingAt [songA, songB, songC] 2)))
   \<and> int 0 < currentSongIndex (playingAt [songA, songB, songC] 2)
   \<and> int 2 = currentSongIndex (playingAt [songA, songB, songC] 2)
   \<and> currentSongIndex (deleteSong (playingAt [songA, songB, songC] 2) (sid songA)) = 1
   \<and> songs (deleteSong (playingAt [songA, songB, songC] 2) (sid songA)) ! 1 = songC
   \<and> isPlaying (deleteSong (playingAt [songA, songB, songC] 2) (sid songC)) = False
   \<and> currentSongIndex (deleteSong (playingAt [songA, songB, songC] 2) (sid songC)) = - 1"
proof -
  let ?s = "playingAt [songA, songB, songC] 2"
  have h: "distinct (map sid (songs ?s))" "0 \<le> currentSongIndex ?s"
    "currentSongIndex ?s < int (length (songs ?s))"
    using distinct_ABC by (simp_all add: playingAt_def)
  have i0: "0 < length (songs ?s)" and i2: "2 < length (songs ?s)"
    by (simp_all add: playingAt_def)
  have c0: "int 0 < currentSongIndex ?s" and c2: "int 2 = currentSongIndex ?s"
    by (simp_all add: playingAt_def)
  have n: "songs ?s ! 0 = songA" "songs ?s ! 2 = songC" "nat (currentSongIndex ?s - 1) = 1"
    "songs ?s ! nat (currentSongIndex ?s) = songC" "currentSongIndex ?s - 1 = 1"
    by (simp_all add: playingAt_def)
  from delete_active_or_earlier [OF h(1) i0 h(2,3)] c0
  have "currentSongIndex (deleteSong ?s (sid (songs ?s ! 0))) = currentSongIndex ?s - 1
      \<and> songs (deleteSong ?s (sid (songs ?s ! 0))) ! nat (currentSongIndex ?s - 1)
          = songs ?s ! nat (currentSongIndex ?s)"
    by blast
  then have "currentSongIndex (deleteSong ?s (sid songA)) = 1
      \<and> songs (deleteSong ?s (sid songA)) ! 1 = songC"
    by (simp add: n)
  moreover from delete_active_or_earlier [OF h(1) i2 h(2,3)] c2
  have "isPlaying (deleteSong ?s (sid (songs ?s ! 2))) = False
      \<and> currentSongIndex (deleteSong ?s (sid (songs ?s ! 2))) = - 1"
    by blast
  then have "isPlaying (deleteSong ?s (sid songC)) = False
      \<and> currentSongIndex (deleteSong ?s (sid songC)) = - 1"
    by (simp add: n)
  ultimately show ?thesis
    using h i0 i2 c0 c2 by blast
qed

text \<open>C10: with pairwise distinct song ids, deleting a track behind the active one removes
  that one song and leaves the index, the playing flag, the active track and the audio
  element as they were.\<close>

theorem delete_later_track_frame:
  assumes "distinct (map sid (songs s))" and "i < length (songs s)"
    and "currentSongIndex s < int i"
  shows "currentSongIndex (deleteSong s (sid (songs s ! i))) = currentSongIndex s
       \<and> isPlaying (deleteSong s (sid (songs s ! i))) = isPlaying s
       \<and> songs (deleteSong s (sid (songs s ! i))) = take i (songs s) @ drop (Suc i) (songs s)
       \<and> length (songs (deleteSong s (sid (songs s ! i)))) = length (songs s) - 1
       \<and> (0 \<le> currentSongIndex s \<longrightarrow>
            songs (deleteSong s (sid (songs s ! i))) ! nat (currentSongIndex s)
              = songs s ! nat (currentSongIndex s))
       \<and> audioSrc (deleteSong s (sid (songs s ! i))) = audioSrc s
       \<and> audioPaused (deleteSong s (sid (songs s ! i))) = audioPaused s
       \<and> isVisualizerActive (deleteSong s (sid (songs s ! i))) = isVisualizerActive s"
proof -
  from assms(3) have ne: "int i \<noteq> currentSongIndex s" "\<not> int i < currentSongIndex s"
    by simp_all
  have eq: "deleteSong s (sid (songs s ! i)) =
      s\<lparr>revokedUrls := revokedUrls s @ [url (songs s ! i)],
        songs := take i (songs s) @ drop (Suc i) (songs s)\<rparr>"
    using ne by (simp add: deleteSong_at [OF assms(1,2)])
  have "0 \<le> currentSongIndex s \<longrightarrow>
      (take i (songs s) @ drop (Suc i) (songs s)) ! nat (currentSongIndex s)
        = songs s ! nat (currentSongIndex s)"
  proof
    assume "0 \<le> currentSongIndex s"
    with assms(3) have "nat (currentSongIndex s) < i" by simp
    then show "(take i (songs s) @ drop (Suc i) (songs s)) ! nat (currentSongIndex s)
        = songs s ! nat (currentSongIndex s)"
      using assms(2) by (rule nth_remove_before)
  qed
  moreover from assms(2)
  have "length (take i (songs s) @ drop (Suc i) (songs s)) = length (songs s) - 1"
    by simp
  ultimately show ?thesis
    unfolding eq by simp
qed

theorem delete_later_track_frame_witness:
  "distinct (map sid (songs (playingAt [songA, songB, songC] 0)))
   \<and> 2 < length (songs (playingAt [songA, songB, songC] 0))
   \<and> currentSongIndex (playingAt [songA, songB, songC] 0) < int 2
   \<and> 0 \<le> currentSongIndex (playingAt [songA, songB, songC] 0)
   \<and> currentSongIndex (deleteSong (playingAt [songA, songB, songC] 0) (sid songC)) = 0
   \<and> isPlaying (deleteSong (playingAt [songA, songB, songC] 0) (sid songC))
   \<and> songs (deleteSong (playingAt [songA, songB, songC] 0) (sid songC)) = [songA, songB]
   \<and> songs (deleteSong (playingAt [songA, songB, songC] 0) (sid songC)) ! 0 = songA"
proof -
  let ?s = "playingAt [songA, songB, songC] 0"
  have h: "distinct (map sid (songs ?s))" "2 < length (songs ?s)" "currentSongIndex ?s < int 2"
    using distinct_ABC by (simp_all add: playingAt_def)
  have c: "0 \<le> currentSongIndex ?s"
    by (simp add: playingAt_def)
  have n: "songs ?s ! 2 = songC" "currentSongIndex ?s = 0" "isPlaying ?s"
    "take 2 (songs ?s) @ drop 3 (songs ?s) = [songA, songB]"
    "songs ?s ! 0 = songA"
    by (simp_all add: playingAt_def)
  from delete_later_track_frame [OF h] c
  have "currentSongIndex (deleteSong ?s (sid (songs ?s ! 2))) = currentSongIndex ?s
      \<and> isPlaying (deleteSong ?s (sid (songs ?s ! 2))) = isPlaying ?s
      \<and> songs (deleteSong ?s (sid (songs ?s ! 2)))
          = take 2 (songs ?s) @ drop (Suc 2) (songs ?s)
      \<and> songs (deleteSong ?s (sid (songs ?s ! 2))) ! nat (currentSongIndex ?s)
          = songs ?s ! nat (currentSongIndex ?s)"
    by blast
  then have "currentSongIndex (deleteSong ?s (sid songC)) = 0
      \<and> isPlaying (deleteSong ?s (sid songC))
      \<and> songs (deleteSong ?s (sid songC)) = [songA, songB]
      \<and> songs (deleteSong ?s (sid songC)) ! 0 = songA"
    by (simp add: n)
  with h c show ?thesis by blast
qed


lemma jsRem_nonneg: "0 \<le> a \<Longrightarrow> 0 < b \<Longrightarrow> jsRem a b = a mod b"
  by (cases "a = 0") (simp_all add: jsRem_def)

text \<open>The index arithmetic of \<^verbatim>\<open>nextSong\<close>: one step forward, wrapping at the end.\<close>

lemma nextSong_index:
  assumes "songs s \<noteq> []" and "- 1 \<le> currentSongIndex s"
  shows "currentSongIndex (nextSong s) = (currentSongIndex s + 1) mod int (length (songs s))
       \<and> isPlaying (nextSong s) \<and> songs (nextSong s) = songs s"
proof -
  let ?n = "int (length (songs s))"
  from assms(1) have n: "0 < ?n" by simp
  from assms(2) have "jsRem (currentSongIndex s + 1) ?n = (currentSongIndex s + 1) mod ?n"
    using n by (intro jsRem_nonneg) simp_all
  moreover from n have "0 \<le> (currentSongIndex s + 1) mod ?n"
    and "(currentSongIndex s + 1) mod ?n < ?n"
    by simp_all
  ultimately show ?thesis
    using assms(1) by (simp add: nextSong_def playSong_def Let_def)
qed

lemma nextSong_single:
  "nextSong (playingAt [songA] 0) = playingAt [songA] 0"
  by (simp add: nextSong_def playSong_def playingAt_def jsRem_def)

text \<open>C6: on a playlist of one song, the end of the track runs \<^verbatim>\<open>nextSong\<close>, which writes the
  index 0 and the playing flag that the state already holds; the song-change effect is
  keyed on the index and does not run, so the element stays paused at the end of the track
  and the song is not played again.\<close>

theorem single_song_not_replayed:
  "trackEnded True (playingAt [songA] 0) = (playingAt [songA] 0)\<lparr>audioPaused := True\<rparr>"
proof -
  let ?ended = "(playingAt [songA] 0)\<lparr>audioPaused := True\<rparr>"
  have "jsRem (currentSongIndex ?ended + 1) (int (length (songs ?ended))) = 0"
    by (simp add: playingAt_def jsRem_def)
  then have "nextSong ?ended = playSong ?ended 0"
    by (simp add: nextSong_def playingAt_def)
  also have "playSong ?ended 0 = ?ended"
    by (simp add: playSong_def playingAt_def)
  finally have same: "nextSong ?ended = ?ended" .
  then have "commit True nextSong ?ended = ?ended"
    by (simp add: commit_def)
  then show ?thesis
    by (simp add: trackEnded_def)
qed

lemma two_songs_next_played:
  "trackEnded True (playingAt [songA, songB] 0) = playingAt [songA, songB] 1"
  by (simp add: trackEnded_def commit_def nextSong_def playSong_def playingAt_def jsRem_def
      changeSong_def)

subsection \<open>Facts about seeking\<close>

text \<open>C9: with the audio element mounted, a finite duration that is not negative and a
  finite delta, \<^verbatim>\<open>skipTime\<close> does not throw and sets the position of the element (and the
  displayed time) to the target: the sum itself when it lies in \<open>[0, duration]\<close>, 0 when it is
  below, the duration when it is above.\<close>

theorem skipTime_clamps:
  assumes "audioTime s = Some t" and "duration s = Fin d" and "0 \<le> d"
  shows "skipTime (Fin delta) s
           = Inr (s\<lparr>audioTime := Some (min (max (t + delta) 0) d),
                    currentTime := min (max (t + delta) 0) d\<rparr>)
       \<and> 0 \<le> min (max (t + delta) 0) d \<and> min (max (t + delta) 0) d \<le> d
       \<and> (0 \<le> t + delta \<and> t + delta \<le> d \<longrightarrow> min (max (t + delta) 0) d = t + delta)
       \<and> (t + delta < 0 \<longrightarrow> min (max (t + delta) 0) d = 0)
       \<and> (d < t + delta \<longrightarrow> min (max (t + delta) 0) d = d)"
proof -
  have "orZero (Fin d) = Fin d" by simp
  then have "skipTime (Fin delta) s
           = Inr (s\<lparr>audioTime := Some (min (max (t + delta) 0) d),
                    currentTime := min (max (t + delta) 0) d\<rparr>)"
    using assms(1,2) by (simp add: skipTime_def)
  moreover from assms(3) have "0 \<le> min (max (t + delta) 0) d" and "min (max (t + delta) 0) d \<le> d"
    by simp_all
  moreover from assms(3) have "t + delta < 0 \<longrightarrow> min (max (t + delta) 0) d = 0"
    and "d < t + delta \<longrightarrow> min (max (t + delta) 0) d = d"
    and "0 \<le> t + delta \<and> t + delta \<le> d \<longrightarrow> min (max (t + delta) 0) d = t + delta"
    by (simp_all add: min_def max_def)
  ultimately show ?thesis by blast
qed

theorem skipTime_clamps_witness:
  "audioTime midTrack = Some 5 \<and> duration midTrack = Fin 200 \<and> (0::real) \<le> 200
   \<and> (5::real) + (- 10) < 0
   \<and> skipTime (Fin (- 10)) midTrack = Inr (midTrack\<lparr>audioTime := Some 0, currentTime := 0\<rparr>)"
proof -
  have h: "audioTime midTrack = Some 5" "duration midTrack = Fin 200" "(0::real) \<le> 200"
    by (simp_all add: midTrack_def)
  have neg: "(5::real) + (- 10) < 0" by simp
  from skipTime_clamps [OF h, of "- 10"] neg
  have "skipTime (Fin (- 10)) midTrack
      = Inr (midTrack\<lparr>audioTime := Some (min (max (5 + (- 10)) 0) 200),
                       currentTime := min (max (5 + (- 10)) 0) 200\<rparr>)"
    and "min (max (5 + (- 10)) 0) 200 = (0::real)"
    by blast+
  then have "skipTime (Fin (- 10)) midTrack = Inr (midTrack\<lparr>audioTime := Some 0, currentTime := 0\<rparr>)"
    by simp
  with h neg show ?thesis by blast
qed

text \<open>No finite delta makes the setter throw, whatever the duration state holds, short of
  the impossible \<open>-\<infinity>\<close>; without an audio element nothing happens.\<close>

lemma skipTime_no_throw:
  assumes "duration s \<noteq> NegInf"
  shows "\<exists>s'. skipTime (Fin delta) s = Inr s'"
proof (cases "audioTime s")
  case None
  then show ?thesis by (simp add: skipTime_def)
next
  case (Some t)
  with assms show ?thesis
    by (cases "duration s") (simp_all add: skipTime_def)
qed

subsection \<open>Facts about the closed path\<close>

lemma topLoop_eq:
  "topLoop c sp i path = path @ map (topCurve c sp) [i..<length sp - 1]"
proof (induction c sp i path rule: topLoop.induct)
  case (1 c sp i path)
  show ?case
  proof (cases "int i < int (length sp) - 1")
    case True
    then have "i < length sp - 1" by simp
    then have "[i..<length sp - 1] = i # [Suc i..<length sp - 1]"
      by (rule upt_conv_Cons)
    with True 1 show ?thesis
      by (subst topLoop.simps) simp
  next
    case False
    then have "[i..<length sp - 1] = []" by simp
    with False show ?thesis
      by (subst topLoop.simps) simp
  qed
qed

lemma bottomLoop_eq:
  "bottomLoop c sp i path = path @ map (bottomCurve c sp) (rev [1..<Suc i])"
proof (induction c sp i path rule: bottomLoop.induct)
  case (1 c sp i path)
  show ?case
  proof (cases "i > 0")
    case True
    then obtain k where k: "i = Suc k" by (cases i) simp_all
    with True 1 show ?thesis
      by (subst bottomLoop.simps) simp
  next
    case False
    then show ?thesis
      by (subst bottomLoop.simps) simp
  qed
qed

lemma pathCmds_eq:
  "pathCmds w c sp =
     [MoveTo 0 c] @ map (topCurve c sp) [0..<length sp - 1]
     @ [LineTo (x (sp ! (length sp - 1))) (c - y (sp ! (length sp - 1))), LineTo w c]
     @ map (bottomCurve c sp) (rev [1..<Suc (length sp - 1)]) @ [ClosePath]"
  by (simp add: pathCmds_def Let_def topLoop_eq bottomLoop_eq)

lemma bezier_diff:
  "w - bezier a c b t = (1 - t)\<^sup>2 * (w - a) + 2 * (1 - t) * t * (w - c) + t\<^sup>2 * (w - b)"
  by (simp add: bezier_def power2_eq_square algebra_simps)

text \<open>A curve whose three defining values are at most \<open>w\<close> stays at most \<open>w\<close>.\<close>

lemma bezier_le:
  assumes "a \<le> w" "c \<le> w" "b \<le> w" "0 \<le> t" "t \<le> 1"
  shows "bezier a c b t \<le> w"
proof -
  have "0 \<le> (1 - t)\<^sup>2 * (w - a)" using assms by simp
  moreover have "0 \<le> 2 * (1 - t) * t * (w - c)" using assms by simp
  moreover have "0 \<le> t\<^sup>2 * (w - b)" using assms by simp
  ultimately have "0 \<le> w - bezier a c b t"
    unfolding bezier_diff by linarith
  then show ?thesis by simp
qed

text \<open>If moreover the end value is below \<open>w\<close>, the curve reaches \<open>w\<close> at most at its start.\<close>

lemma bezier_eq_start:
  assumes "a \<le> w" "c \<le> w" "b < w" "0 \<le> t" "t \<le> 1" "bezier a c b t = w"
  shows "t = 0"
proof (rule ccontr)
  assume "t \<noteq> 0"
  with assms(4) have "0 < t" by simp
  then have "0 < t\<^sup>2 * (w - b)" using assms(3) by simp
  moreover have "0 \<le> (1 - t)\<^sup>2 * (w - a)" using assms by simp
  moreover have "0 \<le> 2 * (1 - t) * t * (w - c)" using assms by simp
  ultimately have "0 < w - bezier a c b t"
    unfolding bezier_diff by linarith
  with assms(6) show False by simp
qed

lemma bezier_0: "bezier a c b 0 = a"
  by (simp add: bezier_def)

lemma bezier_1: "bezier a c b 1 = b"
  by (simp add: bezier_def)

lemma line_diff: "w - ((1 - t) * a + t * b) = (1 - t) * (w - a) + t * (w - (b::real))"
  by (simp add: algebra_simps)

lemma line_le:
  assumes "a \<le> w" "b \<le> w" "0 \<le> t" "t \<le> 1"
  shows "(1 - t) * a + t * b \<le> (w::real)"
proof -
  have "0 \<le> (1 - t) * (w - a)" using assms by simp
  moreover have "0 \<le> t * (w - b)" using assms by simp
  ultimately have "0 \<le> w - ((1 - t) * a + t * b)"
    unfolding line_diff by linarith
  then show ?thesis by simp
qed

lemma line_eq_start:
  assumes "a \<le> w" "b < w" "0 \<le> t" "t \<le> 1" "(1 - t) * a + t * b = (w::real)"
  shows "t = 0"
proof (rule ccontr)
  assume "t \<noteq> 0"
  with assms(3) have "0 < t" by simp
  then have "0 < t * (w - b)" using assms(2) by simp
  moreover have "0 \<le> (1 - t) * (w - a)" using assms by simp
  ultimately have "0 < w - ((1 - t) * a + t * b)"
    unfolding line_diff by linarith
  with assms(5) show False by simp
qed

lemma upper_trace:
  "snd start \<le> c \<Longrightarrow> snd cur \<le> c \<Longrightarrow> list_all (upperCmd c) cs \<Longrightarrow>
     onSegments (trace start cur cs) p \<Longrightarrow> snd p \<le> c"
proof (induction cs arbitrary: start cur)
  case Nil
  then show ?case by simp
next
  case (Cons k cs)
  show ?case
  proof (cases k)
    case (MoveTo a b)
    with Cons.prems have "b \<le> c" and "list_all (upperCmd c) cs"
      and "onSegments (trace (a, b) (a, b) cs) p"
      by simp_all
    with Cons.IH [of "(a, b)" "(a, b)"] show ?thesis by simp
  next
    case (LineTo a b)
    with Cons.prems have b: "b \<le> c" and rest: "list_all (upperCmd c) cs"
      and on: "onSegment (Line cur (a, b)) p \<or> onSegments (trace start (a, b) cs) p"
      by simp_all
    from on show ?thesis
    proof
      assume "onSegment (Line cur (a, b)) p"
      then obtain t where "0 \<le> t" "t \<le> 1" "snd p = (1 - t) * snd cur + t * b"
        by (auto simp: onSegment_def)
      with Cons.prems(2) b show ?thesis by (simp add: line_le)
    next
      assume "onSegments (trace start (a, b) cs) p"
      with Cons.IH [of start "(a, b)"] Cons.prems(1) b rest show ?thesis by simp
    qed
  next
    case (QuadraticCurveTo e d a b)
    with Cons.prems have b: "b \<le> c" "d \<le> c" and rest: "list_all (upperCmd c) cs"
      and on: "onSegment (Quad cur (e, d) (a, b)) p \<or> onSegments (trace start (a, b) cs) p"
      by simp_all
    from on show ?thesis
    proof
      assume "onSegment (Quad cur (e, d) (a, b)) p"
      then obtain t where "0 \<le> t" "t \<le> 1" "snd p = bezier (snd cur) d b t"
        by (auto simp: onSegment_def)
      with Cons.prems(2) b show ?thesis by (simp add: bezier_le)
    next
      assume "onSegments (trace start (a, b) cs) p"
      with Cons.IH [of start "(a, b)"] Cons.prems(1) b rest show ?thesis by simp
    qed
  next
    case ClosePath
    with Cons.prems have rest: "list_all (upperCmd c) cs"
      and on: "onSegment (Line cur start) p \<or> onSegments (trace start start cs) p"
      by simp_all
    from on show ?thesis
    proof
      assume "onSegment (Line cur start) p"
      then obtain t where "0 \<le> t" "t \<le> 1" "snd p = (1 - t) * snd cur + t * snd start"
        by (auto simp: onSegment_def)
      with Cons.prems(1,2) show ?thesis by (simp add: line_le)
    next
      assume "onSegments (trace start start cs) p"
      with Cons.IH [of start start] Cons.prems(1) rest show ?thesis by simp
    qed
  qed
qed

lemma left_trace:
  "fst start < w \<Longrightarrow> fst cur \<le> w \<Longrightarrow> list_all (leftCmd w) cs \<Longrightarrow>
     onSegments (trace start cur cs) p \<Longrightarrow> fst p = w \<Longrightarrow> p = cur"
proof (induction cs arbitrary: cur)
  case Nil
  then show ?case by simp
next
  case (Cons k cs)
  show ?case
  proof (cases k)
    case (MoveTo a b)
    with Cons show ?thesis by simp
  next
    case (LineTo a b)
    with Cons.prems have a: "a < w" and rest: "list_all (leftCmd w) cs"
      and on: "onSegment (Line cur (a, b)) p \<or> onSegments (trace start (a, b) cs) p"
      by simp_all
    from on show ?thesis
    proof
      assume "onSegment (Line cur (a, b)) p"
      then obtain t where t: "0 \<le> t" "t \<le> 1" and p: "p = segAt (Line cur (a, b)) t"
        by (auto simp: onSegment_def)
      from p Cons.prems(5) have "(1 - t) * fst cur + t * a = w" by simp
      with Cons.prems(2) a t have "t = 0" by (intro line_eq_start [of "fst cur" w a t])
      with p show ?thesis by simp
    next
      assume "onSegments (trace start (a, b) cs) p"
      with Cons.IH [of "(a, b)"] Cons.prems(1,5) a rest have "p = (a, b)" by simp
      with Cons.prems(5) a show ?thesis by simp
    qed
  next
    case (QuadraticCurveTo e d a b)
    with Cons.prems have a: "a < w" "e \<le> w" and rest: "list_all (leftCmd w) cs"
      and on: "onSegment (Quad cur (e, d) (a, b)) p \<or> onSegments (trace start (a, b) cs) p"
      by simp_all
    from on show ?thesis
    proof
      assume "onSegment (Quad cur (e, d) (a, b)) p"
      then obtain t where t: "0 \<le> t" "t \<le> 1" and p: "p = segAt (Quad cur (e, d) (a, b)) t"
        by (auto simp: onSegment_def)
      from p Cons.prems(5) have "bezier (fst cur) e a t = w" by simp
      with Cons.prems(2) a t have "t = 0" by (intro bezier_eq_start [of "fst cur" w e a t])
      with p show ?thesis by (simp add: bezier_0)
    next
      assume "onSegments (trace start (a, b) cs) p"
      with Cons.IH [of "(a, b)"] Cons.prems(1,5) a rest have "p = (a, b)" by simp
      with Cons.prems(5) a show ?thesis by simp
    qed
  next
    case ClosePath
    with Cons.prems have rest: "list_all (leftCmd w) cs"
      and on: "onSegment (Line cur start) p \<or> onSegments (trace start start cs) p"
      by simp_all
    from on show ?thesis
    proof
      assume "onSegment (Line cur start) p"
      then obtain t where t: "0 \<le> t" "t \<le> 1" and p: "p = segAt (Line cur start) t"
        by (auto simp: onSegment_def)
      from p Cons.prems(5) have "(1 - t) * fst cur + t * fst start = w" by simp
      with Cons.prems(1,2) t have "t = 0" by (intro line_eq_start [of "fst cur" w "fst start" t])
      with p show ?thesis by simp
    next
      assume "onSegments (trace start start cs) p"
      with Cons.IH [of start] Cons.prems(1,5) rest have "p = start" by simp
      with Cons.prems(1,5) show ?thesis by simp
    qed
  qed
qed

lemma trace_append:
  "trace start cur (cs @ ds) =
     trace start cur cs
     @ trace (fst (foldl penStep (start, cur) cs)) (snd (foldl penStep (start, cur) cs)) ds"
proof (induction cs arbitrary: start cur)
  case Nil
  then show ?case by simp
next
  case (Cons k cs)
  then show ?case by (cases k) (simp_all add: penStep_def)
qed

lemma onSegments_append: "onSegments (ss @ ts) p = (onSegments ss p \<or> onSegments ts p)"
  by (induction ss) simp_all

lemma pen_topCurves:
  "fst (foldl penStep s (map (topCurve c sp) ks)) = fst s"
  by (induction ks arbitrary: s) (simp_all add: topCurve_def Let_def penStep_def)

lemma pathCmds_split: "pathCmds w c sp = MoveTo 0 c # upperCmds w c sp @ lowerCmds c sp"
  by (simp add: pathCmds_eq upperCmds_def lowerCmds_def)

lemma pen_upperCmds: "foldl penStep (s, s) (upperCmds w c sp) = (s, (w, c))"
proof -
  have "fst (foldl penStep (s, s) (map (topCurve c sp) [0..<length sp - 1])) = s"
    by (simp add: pen_topCurves)
  then show ?thesis
    by (simp add: upperCmds_def penStep_def)
qed

lemma trace_pathCmds:
  "trace (0, 0) (0, 0) (pathCmds w c sp) =
     trace (0, c) (0, c) (upperCmds w c sp) @ trace (0, c) (w, c) (lowerCmds c sp)"
  by (simp add: pathCmds_split trace_append pen_upperCmds)

lemma upperCmds_upper:
  assumes "\<forall>i < length sp. 0 \<le> y (sp ! i)" and "sp \<noteq> []"
  shows "list_all (upperCmd c) (upperCmds w c sp)"
proof -
  have "upperCmd c (topCurve c sp i)" if "i < length sp - 1" for i
  proof -
    from that have "i < length sp" "i + 1 < length sp" by simp_all
    with assms(1) have "0 \<le> y (sp ! i)" "0 \<le> y (sp ! (i + 1))" by simp_all
    then show ?thesis by (simp add: topCurve_def Let_def)
  qed
  moreover from assms have "0 \<le> y (sp ! (length sp - 1))" by simp
  ultimately show ?thesis
    by (simp add: upperCmds_def list_all_iff)
qed

lemma lowerCmds_left:
  assumes "\<forall>i < length sp. x (sp ! i) \<le> w" and "\<forall>i. i + 1 < length sp \<longrightarrow> x (sp ! i) < w"
  shows "list_all (leftCmd w) (lowerCmds c sp)"
proof -
  have "leftCmd w (bottomCurve c sp i)" if "1 \<le> i" "i < Suc (length sp - 1)" for i
  proof -
    from that have "i < length sp" "(i - 1) + 1 < length sp" by simp_all
    with assms have "x (sp ! i) \<le> w" "x (sp ! (i - 1)) < w" by blast+
    then show ?thesis by (simp add: bottomCurve_def Let_def)
  qed
  then show ?thesis
    by (auto simp: lowerCmds_def list_all_iff)
qed

text \<open>The corner that \<^verbatim>\<open>lineTo(last.x, centerY - last.y)\<close> puts on the upper contour has no
  mirror image on the path, as soon as the last point is off the centre line.\<close>

lemma path_corner_not_mirrored:
  assumes "sp \<noteq> []" and "0 < w"
    and "\<forall>i < length sp. x (sp ! i) \<le> w" and "\<forall>i. i + 1 < length sp \<longrightarrow> x (sp ! i) < w"
    and "\<forall>i < length sp. 0 \<le> y (sp ! i)"
    and "x (sp ! (length sp - 1)) = w" and "0 < y (sp ! (length sp - 1))"
  shows "onPath (pathCmds w c sp) (w, c - y (sp ! (length sp - 1)))
       \<and> \<not> onPath (pathCmds w c sp) (w, c + y (sp ! (length sp - 1)))"
proof
  let ?l = "sp ! (length sp - 1)"
  let ?tops = "map (topCurve c sp) [0..<length sp - 1]"
  let ?pen = "foldl penStep ((0, c), (0, c)) ?tops"
  have "trace (0, c) (0, c) (upperCmds w c sp) =
      trace (0, c) (0, c) ?tops
      @ Line (snd ?pen) (x ?l, c - y ?l) # [Line (x ?l, c - y ?l) (w, c)]"
    by (simp add: upperCmds_def trace_append)
  moreover have "onSegment (Line (snd ?pen) (x ?l, c - y ?l)) (x ?l, c - y ?l)"
    unfolding onSegment_def by (rule exI [of _ 1]) simp
  ultimately have "onSegments (trace (0, c) (0, c) (upperCmds w c sp)) (x ?l, c - y ?l)"
    by (simp add: onSegments_append)
  then show "onPath (pathCmds w c sp) (w, c - y ?l)"
    using assms(6) by (simp add: onPath_def trace_pathCmds onSegments_append)
next
  let ?l = "sp ! (length sp - 1)"
  let ?q = "(w, c + y ?l)"
  show "\<not> onPath (pathCmds w c sp) ?q"
  proof
    assume "onPath (pathCmds w c sp) ?q"
    then consider "onSegments (trace (0, c) (0, c) (upperCmds w c sp)) ?q"
      | "onSegments (trace (0, c) (w, c) (lowerCmds c sp)) ?q"
      by (auto simp: onPath_def trace_pathCmds onSegments_append)
    then show False
    proof cases
      case 1
      have "snd ?q \<le> c"
        by (rule upper_trace [OF _ _ upperCmds_upper [OF assms(5,1)] 1]) simp_all
      with assms(7) show False by simp
    next
      case 2
      have "?q = (w, c)"
        by (rule left_trace [OF _ _ lowerCmds_left [OF assms(3,4)] 2]) (simp_all add: assms(2))
      with assms(7) show False by simp
    qed
  qed
qed

lemma length_smooth: "length (smooth ps) = length ps"
  by (simp add: smooth_def length_smoothPasses)

lemma x_smooth: "j < length ps \<Longrightarrow> x (smooth ps ! j) = x (ps ! j)"
  by (simp add: smooth_def x_smoothPasses)

lemma nth_smoothPasses_last: "length ps \<le> j + 1 \<Longrightarrow> smoothPasses 0 k ps ! j = ps ! j"
  by (induction k) (simp_all add: smoothPasses_0 smoothPasses_Suc nth_smoothPass_last length_smoothPasses)

lemma smooth_nonneg:
  assumes "\<forall>j < length ps. 0 \<le> y (ps ! j)" and "i < length ps"
  shows "0 \<le> y (smooth ps ! i)"
proof -
  define hi where "hi = Max (insert 0 (y ` set ps))"
  have "y (ps ! j) \<le> hi" if "j < length ps" for j
    unfolding hi_def using that by (intro Max_ge) simp_all
  with assms(1) have "\<forall>j. j \<le> i + 3 \<and> j < length ps \<longrightarrow> 0 \<le> y (ps ! j) \<and> y (ps ! j) \<le> hi"
    by simp
  from smoothPasses_bounds [OF this assms(2)] show ?thesis
    by (simp add: smooth_def)
qed

lemma length_loudFramePoints: "length loudFramePoints = 181"
  by (simp add: loudFramePoints_def length_smooth length_mapToDisplayPoints)

lemma x_loudFramePoints: "i < 181 \<Longrightarrow> x (loudFramePoints ! i) = 400 * (real i / 180)"
  by (simp add: loudFramePoints_def x_smooth length_mapToDisplayPoints nth_mapToDisplayPoints
      x_displayPoint)

lemma y_loudFramePoints_nonneg: "i < 181 \<Longrightarrow> 0 \<le> y (loudFramePoints ! i)"
proof -
  assume i: "i < 181"
  have "\<forall>j < length (mapToDisplayPoints loudBin (Some 44100) 400 240).
      0 \<le> y (mapToDisplayPoints loudBin (Some 44100) 400 240 ! j)"
    by (simp add: length_mapToDisplayPoints nth_mapToDisplayPoints y_displayPoint_range)
  moreover from i have "i < length (mapToDisplayPoints loudBin (Some 44100) 400 240)"
    by (simp add: length_mapToDisplayPoints)
  ultimately show ?thesis
    unfolding loudFramePoints_def by (rule smooth_nonneg)
qed

lemma y_loudFramePoints_last: "y (loudFramePoints ! 180) = 78"
proof -
  have "smooth (mapToDisplayPoints loudBin (Some 44100) 400 240) ! 180
      = mapToDisplayPoints loudBin (Some 44100) 400 240 ! 180"
    unfolding smooth_def by (rule nth_smoothPasses_last) (simp add: length_mapToDisplayPoints)
  then show ?thesis
    by (simp add: loudFramePoints_def y_last_loudBin)
qed

text \<open>The curve commands of the two halves are reflections of each other about the centre
  line: the one through point \<open>i + 1\<close> below ends at the mirror image of the end of the one
  through point \<open>i\<close> above.\<close>

lemma curves_mirrored:
  "topCurve c sp i =
     QuadraticCurveTo (x (sp ! i)) (c - y (sp ! i))
       ((x (sp ! i) + x (sp ! (i + 1))) / 2) (c - (y (sp ! i) + y (sp ! (i + 1))) / 2)
   \<and> bottomCurve c sp (i + 1) =
     QuadraticCurveTo (x (sp ! (i + 1))) (c + y (sp ! (i + 1)))
       ((x (sp ! i) + x (sp ! (i + 1))) / 2) (c + (y (sp ! i) + y (sp ! (i + 1))) / 2)"
  by (simp add: topCurve_def bottomCurve_def Let_def add.commute)

text \<open>C4: the two halves are not mirror images at the ends. For the snapshot \<open>loudBin\<close> the
  upper contour runs through the corner \<open>(400, 120 - 78)\<close>, the target of
  \<^verbatim>\<open>lineTo(last.x, centerY - last.y)\<close>, while the point \<open>(400, 120 + 78)\<close> at the same
  offset below the centre line is not on the path: the lower half starts with a curve that
  only has this point as its control point.\<close>

theorem mirrored_path_not_symmetric:
  "framePath loudBin (Some 44100) 400 240 = Inr (pathCmds 400 120 loudFramePoints)
   \<and> onPath (pathCmds 400 120 loudFramePoints) (400, 120 - 78)
   \<and> \<not> onPath (pathCmds 400 120 loudFramePoints) (400, 120 + 78)"
proof -
  have ne: "loudFramePoints \<noteq> []"
    using length_loudFramePoints by auto
  then have "framePath loudBin (Some 44100) 400 240 = Inr (pathCmds 400 120 loudFramePoints)"
    by (simp add: framePath_def drawPath_def loudFramePoints_def)
  moreover have "onPath (pathCmds 400 120 loudFramePoints)
        (400, 120 - y (loudFramePoints ! (length loudFramePoints - 1)))
      \<and> \<not> onPath (pathCmds 400 120 loudFramePoints)
        (400, 120 + y (loudFramePoints ! (length loudFramePoints - 1)))"
  proof (rule path_corner_not_mirrored [OF ne])
    show "(0::real) < 400" by simp
    show "\<forall>i < length loudFramePoints. x (loudFramePoints ! i) \<le> 400"
      by (simp add: length_loudFramePoints x_loudFramePoints)
    show "\<forall>i. i + 1 < length loudFramePoints \<longrightarrow> x (loudFramePoints ! i) < 400"
      by (simp add: length_loudFramePoints x_loudFramePoints)
    show "\<forall>i < length loudFramePoints. 0 \<le> y (loudFramePoints ! i)"
      by (simp add: length_loudFramePoints y_loudFramePoints_nonneg)
    show "x (loudFramePoints ! (length loudFramePoints - 1)) = 400"
      by (simp add: length_loudFramePoints x_loudFramePoints)
    show "0 < y (loudFramePoints ! (length loudFramePoints - 1))"
      by (simp add: length_loudFramePoints y_loudFramePoints_last)
  qed
  ultimately show ?thesis
    by (simp add: length_loudFramePoints y_loudFramePoints_last)
qed

subsection \<open>Facts about play and pause\<close>












end
